theory Spec2Isabelle
  imports Complex_Main "HOL-Library.Char_ord" "HOL-Library.List_Lexorder"
begin

section \<open>The corpus analyzer of problem3 (analyzer/analyze.py)\<close>

text \<open>
  The analyzer reads every processed document, tokenizes its text and assembles one
  report: word totals, the hundred most frequent words, bigrams and trigrams, the
  pairwise Jaccard similarity of the documents and a readability summary. It then
  writes the report and, after it, a completion marker.

  Conventions of the embedding.
  \<^item> A Python \<open>str\<close> is a \<open>string\<close>. Characters are Isabelle's 8-bit \<open>char\<close>, so the
    Unicode tables behind \<open>\w\<close>, \<open>str.lower\<close> and \<open>str.strip\<close> are taken on the ASCII
    range, where they are \<open>[A-Za-z0-9_]\<close>, \<open>A-Z \<mapsto> a-z\<close> and the six ASCII blanks
    with the four separators \<open>0x1c-0x1f\<close>.
  \<^item> A Python \<open>float\<close> is an exact rational (\<open>rat\<close>): \<open>/\<close> is exact division and
    \<open>round(x, n)\<close> rounds the exact value half to even at \<open>n\<close> decimals.
  \<^item> Lengths and counts are \<open>nat\<close>.
  \<^item> A Python \<open>set\<close> is a HOL set; every set the program builds is the set of a list.
  \<^item> A \<open>Counter\<close> is an association list in insertion order, the order in which a
    Python \<open>dict\<close> iterates.
  \<^item> An exception is a value \<open>Inl e\<close> of a result type \<open>error + 'a\<close>.
\<close>

subsection \<open>Characters\<close>

definition is_word_char :: "char \<Rightarrow> bool" where
  \<comment> \<open>the class \<open>\w\<close>\<close>
  "is_word_char c \<longleftrightarrow>
     c \<in> set ''abcdefghijklmnopqrstuvwxyzABCDEFGHIJKLMNOPQRSTUVWXYZ0123456789_''"

definition in_class :: "char \<Rightarrow> bool" where
  \<comment> \<open>the class \<open>[\w-]\<close>\<close>
  "in_class c \<longleftrightarrow> is_word_char c \<or> c = CHR ''-''"

definition lower_char :: "char \<Rightarrow> char" where
  "lower_char c =
     (case map_of (zip ''ABCDEFGHIJKLMNOPQRSTUVWXYZ'' ''abcdefghijklmnopqrstuvwxyz'') c of
        Some d \<Rightarrow> d
      | None \<Rightarrow> c)"

definition lower :: "string \<Rightarrow> string" where
  \<comment> \<open>\<open>str.lower\<close>\<close>
  "lower s = map lower_char s"

definition is_space :: "char \<Rightarrow> bool" where
  \<comment> \<open>the characters \<open>str.strip()\<close> removes: tab, LF, VT, FF, CR, FS, GS, RS, US, space\<close>
  "is_space c \<longleftrightarrow>
     c \<in> {CHR 0x09, CHR 0x0A, CHR 0x0B, CHR 0x0C, CHR 0x0D,
          CHR 0x1C, CHR 0x1D, CHR 0x1E, CHR 0x1F, CHR 0x20}"

definition strip :: "string \<Rightarrow> string" where
  \<comment> \<open>\<open>str.strip()\<close>\<close>
  "strip s = rev (dropWhile is_space (rev (dropWhile is_space s)))"

subsection \<open>tokenize\<close>

text \<open>
  \<open>tokenize(text) = re.findall(r"\b[\w-]+\b", text, flags=re.UNICODE)\<close>.

  The regular expression engine scans the text from left to right. At a position it
  tries the pattern: \<open>\b\<close> must hold there, \<open>[\w-]+\<close> then takes the longest run of
  class characters, and the closing \<open>\b\<close> makes it give characters back one at a time
  until a word boundary is reached, or fail when none of the at least one character long
  prefixes ends at one. After a match the scan goes on where the match ended, after a
  failure one character further.

  The scan is by the rest of the text, together with whether the character before it is
  a word character (\<open>False\<close> at the start of the text).
\<close>

definition boundary :: "bool \<Rightarrow> string \<Rightarrow> bool" where
  \<comment> \<open>\<open>\b\<close>: exactly one of the two neighbours is a word character\<close>
  "boundary p s \<longleftrightarrow> p \<noteq> (case s of [] \<Rightarrow> False | c # _ \<Rightarrow> is_word_char c)"

fun backtrack :: "string \<Rightarrow> nat \<Rightarrow> nat option" where
  \<comment> \<open>the longest prefix of at most \<open>k\<close> and at least one character that ends at a \<open>\b\<close>\<close>
  "backtrack s 0 = None"
| "backtrack s (Suc k) =
     (if boundary (is_word_char (s ! k)) (drop (Suc k) s) then Some (Suc k)
      else backtrack s k)"

definition match_at :: "bool \<Rightarrow> string \<Rightarrow> nat option" where
  \<comment> \<open>the length of the match of \<open>\b[\w-]+\b\<close> at the head of \<open>s\<close>, if there is one\<close>
  "match_at p s =
     (if boundary p s then backtrack s (length (takeWhile in_class s)) else None)"

function findall_from :: "bool \<Rightarrow> string \<Rightarrow> string list" where
  "findall_from p [] = []"
| "findall_from p (c # cs) =
     (case match_at p (c # cs) of
        Some k \<Rightarrow>
          take k (c # cs) # findall_from (is_word_char ((c # cs) ! (k - 1))) (drop k (c # cs))
      | None \<Rightarrow> findall_from (is_word_char c) cs)"
  by pat_completeness auto
termination
proof (relation "measure (\<lambda>(p, s). length s)")
  fix p :: bool and c :: char and cs :: string and k :: nat
  assume m: "match_at p (c # cs) = Some k"
  have "backtrack s n = Some j \<Longrightarrow> 0 < j" for s n j
    by (induction n) (auto split: if_splits)
  with m have "0 < k"
    by (auto simp: match_at_def split: if_splits)
  then show "((is_word_char ((c # cs) ! (k - 1)), drop k (c # cs)), (p, c # cs))
      \<in> measure (\<lambda>(p, s). length s)"
    by simp
qed simp_all

definition tokenize :: "string \<Rightarrow> string list" where
  "tokenize text = findall_from False text"

subsection \<open>jaccard_similarity, ngrams, avg\<close>

definition jaccard_similarity :: "'a set \<Rightarrow> 'a set \<Rightarrow> rat" where
  "jaccard_similarity doc1_words doc2_words =
     (let set1 = doc1_words; set2 = doc2_words;
          inter = set1 \<inter> set2;
          union = set1 \<union> set2
      in if union \<noteq> {} then of_nat (card inter) / of_nat (card union) else 0)"

fun join_space :: "string list \<Rightarrow> string" where
  \<comment> \<open>\<open>" ".join\<close>\<close>
  "join_space [] = []"
| "join_space [t] = t"
| "join_space (t # u # us) = t @ '' '' @ join_space (u # us)"

definition ngrams :: "string list \<Rightarrow> nat \<Rightarrow> string list" where
  \<comment> \<open>\<open>range(0, max(0, len(tokens) - n + 1))\<close> has \<open>length tokens + 1 - n\<close> elements\<close>
  "ngrams tokens n =
     map (\<lambda>i. join_space (take n (drop i tokens))) [0 ..< length tokens + 1 - n]"

definition avg :: "rat list \<Rightarrow> rat" where
  "avg nums = (if nums \<noteq> [] then sum_list nums / of_nat (length nums) else 0)"

definition round_half_even :: "rat \<Rightarrow> int" where
  "round_half_even x =
     (let f = \<lfloor>x\<rfloor>; d = x - of_int f
      in if d < 1 / 2 then f else if 1 / 2 < d then f + 1 else if even f then f else f + 1)"

definition py_round :: "rat \<Rightarrow> nat \<Rightarrow> rat" where
  \<comment> \<open>\<open>round(x, ndigits)\<close>\<close>
  "py_round x ndigits = of_int (round_half_even (x * 10 ^ ndigits)) / 10 ^ ndigits"

subsection \<open>Counter and most_common\<close>

text \<open>
  \<open>c[k] += 1\<close> on a \<open>Counter\<close> adds one to the count of a key that is present and
  appends a new key with count one. \<open>Counter(iterable)\<close> does so for every element in
  turn.

  \<open>Counter.most_common(n)\<close> is \<open>heapq.nlargest(n, self.items(), key=itemgetter(1))\<close>,
  which the library specifies as \<open>sorted(iterable, key=key, reverse=True)[:n]\<close>. Python's
  sort is stable, also when reversed, so keys of equal count stay in insertion order.
\<close>

fun counter_incr :: "('a \<times> nat) list \<Rightarrow> 'a \<Rightarrow> ('a \<times> nat) list" where
  "counter_incr [] k = [(k, 1)]"
| "counter_incr ((k', v) # c) k =
     (if k' = k then (k', v + 1) # c else (k', v) # counter_incr c k)"

definition Counter :: "'a list \<Rightarrow> ('a \<times> nat) list" where
  "Counter xs = foldl counter_incr [] xs"

definition most_common :: "nat \<Rightarrow> ('a \<times> nat) list \<Rightarrow> ('a \<times> nat) list" where
  "most_common n c = take n (sort_key (\<lambda>(k, v). - int v) c)"

fun combinations2 :: "'a list \<Rightarrow> ('a \<times> 'a) list" where
  \<comment> \<open>\<open>itertools.combinations(xs, 2)\<close>\<close>
  "combinations2 [] = []"
| "combinations2 (x # xs) = map (Pair x) xs @ combinations2 xs"

subsection \<open>Sentences\<close>

definition is_terminator :: "char \<Rightarrow> bool" where
  \<comment> \<open>the class \<open>[.!?]\<close>\<close>
  "is_terminator c \<longleftrightarrow> c \<in> {CHR ''.'', CHR ''!'', CHR ''?''}"

function re_split :: "string \<Rightarrow> string list" where
  \<comment> \<open>\<open>re.split(r"[.!?]+", text)\<close>: the pieces between the maximal runs of terminators\<close>
  "re_split s =
     (let piece = takeWhile (\<lambda>c. \<not> is_terminator c) s;
          rest = dropWhile (\<lambda>c. \<not> is_terminator c) s
      in if rest = [] then [piece] else piece # re_split (dropWhile is_terminator rest))"
  by pat_completeness auto
termination
proof (relation "measure length")
  fix s rest :: string
  assume rest: "rest = dropWhile (\<lambda>c. \<not> is_terminator c) s" and ne: "rest \<noteq> []"
  from ne obtain c cs where cs: "rest = c # cs"
    by (cases rest) auto
  have "is_terminator c"
    using rest cs dropWhile_eq_Cons_conv [of "\<lambda>c. \<not> is_terminator c" s c cs] by simp
  then have "length (dropWhile is_terminator rest) \<le> length cs"
    using cs by (simp add: length_dropWhile_le)
  moreover have "length rest \<le> length s"
    using rest by (simp add: length_dropWhile_le)
  ultimately show "(dropWhile is_terminator rest, s) \<in> measure length"
    using cs by simp
qed simp

declare re_split.simps [simp del]

definition sentence_list :: "string \<Rightarrow> string list" where
  \<comment> \<open>lines 64-65: split, then keep the stripped pieces that are not empty\<close>
  "sentence_list text = map strip (filter (\<lambda>s. strip s \<noteq> []) (re_split text))"

subsection \<open>Processed documents\<close>

datatype json =
    JNull
  | JBool bool
  | JNumber rat
  | JString string
  | JArray "json list"
  | JObject "(string \<times> json) list"

datatype file_content = Unparsable | Parsed json

datatype error = JSONDecodeError | AttributeError | TypeError | OSError

definition read_text :: "file_content \<Rightarrow> error + string" where
  \<comment> \<open>\<open>json.load\<close> raises on a file that is not JSON; \<open>obj.get\<close> exists on a \<open>dict\<close>
      only; \<open>re.findall\<close> raises \<open>TypeError\<close> on a text that is not a string\<close>
  "read_text content =
     (case content of
        Unparsable \<Rightarrow> Inl JSONDecodeError
      | Parsed obj \<Rightarrow>
          (case obj of
             JObject kvs \<Rightarrow>
               (case map_of kvs ''text'' of
                  None \<Rightarrow> Inr []
                | Some (JString text) \<Rightarrow> Inr text
                | Some _ \<Rightarrow> Inl TypeError)
           | _ \<Rightarrow> Inl AttributeError))"

record loop_state =
  docs :: "string list"
  all_tokens :: "string list"
  doc_word_sets :: "string \<rightharpoonup> string set"
  total_words_acc :: nat
  doc_avg_sentence_len :: "rat list"
  doc_avg_word_len :: "rat list"

definition initial_state :: loop_state where
  "initial_state =
     \<lparr>docs = [], all_tokens = [], doc_word_sets = Map.empty, total_words_acc = 0,
      doc_avg_sentence_len = [], doc_avg_word_len = []\<rparr>"

definition loop_body :: "loop_state \<Rightarrow> string \<times> file_content \<Rightarrow> error + loop_state" where
  \<comment> \<open>lines 52-69, one file. Of \<open>docs\<close> only the file names are used later.\<close>
  "loop_body st f =
     (case f of (fn, content) \<Rightarrow>
        (case read_text content of
           Inl e \<Rightarrow> Inl e
         | Inr text \<Rightarrow>
             (let tokens = tokenize text;
                  sentences = sentence_list text;
                  sent_lens = map (\<lambda>s. length (tokenize s)) sentences
              in Inr (st\<lparr>docs := docs st @ [fn],
                         all_tokens := all_tokens st @ tokens,
                         total_words_acc := total_words_acc st + length tokens,
                         doc_word_sets := (doc_word_sets st)(fn \<mapsto> set (map lower tokens)),
                         doc_avg_sentence_len :=
                           doc_avg_sentence_len st @ [avg (map of_nat sent_lens)],
                         doc_avg_word_len :=
                           doc_avg_word_len st @ [avg (map (\<lambda>t. of_nat (length t)) tokens)]\<rparr>))))"

fun ingest :: "loop_state \<Rightarrow> (string \<times> file_content) list \<Rightarrow> error + loop_state" where
  "ingest st [] = Inr st"
| "ingest st (f # fs) =
     (case loop_body st f of Inl e \<Rightarrow> Inl e | Inr st' \<Rightarrow> ingest st' fs)"

subsection \<open>The report\<close>

record word_entry =
  word :: string
  count :: nat
  frequency :: rat

record similarity_entry =
  doc1 :: string
  doc2 :: string
  similarity :: rat

record ngram_entry =
  ngram :: string
  ngram_count :: nat

record readability_summary =
  avg_sentence_length :: rat
  avg_word_length :: rat
  complexity_score :: rat

record report =
  processing_timestamp :: string
  documents_processed :: nat
  total_words :: nat
  unique_words :: nat
  top_100_words :: "word_entry list"
  document_similarity :: "similarity_entry list"
  top_bigrams :: "ngram_entry list"
  top_trigrams :: "ngram_entry list"
  readability :: readability_summary

definition word_set_of :: "(string \<rightharpoonup> string set) \<Rightarrow> string \<Rightarrow> string set" where
  \<comment> \<open>\<open>doc_word_sets.get(fn, [])\<close>\<close>
  "word_set_of m fn = (case m fn of Some s \<Rightarrow> s | None \<Rightarrow> {})"

definition build_report :: "string \<Rightarrow> nat \<Rightarrow> loop_state \<Rightarrow> report" where
  \<comment> \<open>lines 71-113; \<open>now\<close> is what \<open>utc_now()\<close> returns, \<open>n_files\<close> is \<open>len(files)\<close>\<close>
  "build_report now n_files st =
     (let total = total_words_acc st;
          lower_all = map lower (all_tokens st);
          unique = card (set lower_all);
          top_100 = most_common 100 (Counter lower_all);
          top_words =
            map (\<lambda>(w, cnt).
                   \<lparr>word = w, count = cnt,
                    frequency =
                      py_round (if total \<noteq> 0 then of_nat cnt / of_nat total else 0) 6\<rparr>)
                top_100;
          sims =
            map (\<lambda>(fn1, fn2).
                   \<lparr>doc1 = fn1, doc2 = fn2,
                    similarity =
                      py_round (jaccard_similarity (word_set_of (doc_word_sets st) fn1)
                                                   (word_set_of (doc_word_sets st) fn2)) 6\<rparr>)
                (combinations2 (docs st));
          bigrams =
            map (\<lambda>(k, v). \<lparr>ngram = k, ngram_count = v\<rparr>)
                (most_common 100 (Counter (ngrams lower_all 2)));
          trigrams =
            map (\<lambda>(k, v). \<lparr>ngram = k, ngram_count = v\<rparr>)
                (most_common 100 (Counter (ngrams lower_all 3)));
          asl = avg (doc_avg_sentence_len st);
          awl = avg (doc_avg_word_len st);
          complexity = asl * (awl / 5)
      in \<lparr>processing_timestamp = now,
          documents_processed = n_files,
          total_words = total,
          unique_words = unique,
          top_100_words = top_words,
          document_similarity = sims,
          top_bigrams = bigrams,
          top_trigrams = trigrams,
          readability =
            \<lparr>avg_sentence_length = py_round asl 3,
             avg_word_length = py_round awl 3,
             complexity_score = py_round complexity 6\<rparr>\<rparr>)"

definition analyze :: "string \<Rightarrow> (string \<times> file_content) list \<Rightarrow> error + report" where
  \<comment> \<open>lines 44-113 on the sorted list of files with their contents\<close>
  "analyze now files =
     (case ingest initial_state files of
        Inl e \<Rightarrow> Inl e
      | Inr st \<Rightarrow> Inr (build_report now (length files) st))"

subsection \<open>Writing the report and the completion marker\<close>

text \<open>
  Lines 115-120. \<open>main\<close> first waits for the processor's marker and lists the processed
  directory; the embedding starts from that listing, the names of the directory with what
  each file holds. A write is \<open>open(path, "w")\<close> followed by \<open>json.dump\<close>; whether it
  succeeds is the environment's choice: it succeeds, \<open>open\<close> raises and the file is
  untouched, or \<open>json.dump\<close> raises and leaves a partial file. The world also records the
  paths of the writes that completed, in order.
\<close>

datatype written = ReportFile report | MarkerFile string string | PartialFile

datatype outcome = Succeeds | OpenFails | DumpFails

record world =
  files :: "string \<rightharpoonup> written"
  completed :: "string list"

record environment =
  report_time :: string
  marker_time :: string
  report_write :: outcome
  marker_write :: outcome

definition write_json :: "outcome \<Rightarrow> string \<Rightarrow> written \<Rightarrow> world \<Rightarrow> (error + unit) \<times> world" where
  "write_json oc path v w =
     (case oc of
        Succeeds \<Rightarrow> (Inr (), w\<lparr>files := (files w)(path \<mapsto> v), completed := completed w @ [path]\<rparr>)
      | OpenFails \<Rightarrow> (Inl OSError, w)
      | DumpFails \<Rightarrow> (Inl OSError, w\<lparr>files := (files w)(path \<mapsto> PartialFile)\<rparr>))"

definition out_path :: string where
  "out_path = ''/shared/analysis/final_report.json''"

definition marker_path :: string where
  "marker_path = ''/shared/status/analyze_complete.json''"

definition endswith :: "string \<Rightarrow> string \<Rightarrow> bool" where
  "endswith s suffix \<longleftrightarrow>
     length suffix \<le> length s \<and> drop (length s - length suffix) s = suffix"

definition sorted_files :: "(string \<times> file_content) list \<Rightarrow> (string \<times> file_content) list" where
  \<comment> \<open>line 43: the names that end in \<open>.json\<close>, sorted\<close>
  "sorted_files listing =
     sort_key fst (filter (\<lambda>f. endswith (lower (fst f)) ''.json'') listing)"

definition main :: "environment \<Rightarrow> (string \<times> file_content) list \<Rightarrow> world \<Rightarrow> (error + unit) \<times> world" where
  "main env listing w =
     (case analyze (report_time env) (sorted_files listing) of
        Inl e \<Rightarrow> (Inl e, w)
      | Inr report \<Rightarrow>
          (case write_json (report_write env) out_path (ReportFile report) w of
             (Inl e, w1) \<Rightarrow> (Inl e, w1)
           | (Inr u, w1) \<Rightarrow>
               write_json (marker_write env) marker_path
                 (MarkerFile (marker_time env) ''analysis/final_report.json'') w1))"

subsection \<open>Notions used to state the properties\<close>

definition reads_as :: "(string \<times> file_content) list \<Rightarrow> string list \<Rightarrow> bool" where
  \<comment> \<open>every file is a JSON object, and \<open>texts\<close> are the texts the loop takes from them\<close>
  "reads_as fs texts \<longleftrightarrow> map (\<lambda>f. read_text (snd f)) fs = map Inr texts"

definition token_stream :: "string list \<Rightarrow> string list" where
  \<comment> \<open>the lower-cased tokens of all documents, in the order of the documents\<close>
  "token_stream texts = map lower (concat (map tokenize texts))"

definition first_pos :: "'a list \<Rightarrow> 'a \<Rightarrow> nat" where
  \<comment> \<open>the position of the first occurrence of \<open>x\<close> in \<open>xs\<close>\<close>
  "first_pos xs x = length (takeWhile (\<lambda>y. y \<noteq> x) xs)"





definition ranks_before :: "'a list \<Rightarrow> 'a \<Rightarrow> 'a \<Rightarrow> bool" where
  \<comment> \<open>\<open>a\<close> occurs more often in \<open>xs\<close> than \<open>b\<close>, or as often and first occurs earlier\<close>
  "ranks_before xs a b \<longleftrightarrow>
     count_list xs b < count_list xs a \<or>
     (count_list xs a = count_list xs b \<and> first_pos xs a < first_pos xs b)"

definition top_by_count :: "nat \<Rightarrow> string list \<Rightarrow> ngram_entry list \<Rightarrow> bool" where
  \<comment> \<open>\<open>best\<close> lists, by descending count, \<open>n\<close> of the most frequent elements of
      \<open>grams\<close> (all of them when there are fewer), each once and with its count\<close>
  "top_by_count n grams best \<longleftrightarrow>
     length best = min n (card (set grams)) \<and>
     distinct (map ngram best) \<and>
     (\<forall>e\<in>set best. ngram e \<in> set grams \<and> ngram_count e = count_list grams (ngram e)) \<and>
     sorted_wrt (\<lambda>a b. ngram_count b \<le> ngram_count a) best \<and>
     (\<forall>g\<in>set grams. g \<notin> set (map ngram best) \<longrightarrow>
        (\<forall>e\<in>set best. count_list grams g \<le> ngram_count e))"





subsection \<open>A small corpus\<close>

text \<open>Two documents, used to run the definitions on a concrete input.\<close>

definition example_texts :: "string list" where
  "example_texts = [''Cats chase mice. Mice run fast.'', ''Dogs chase cats.'']"

definition example_files :: "(string \<times> file_content) list" where
  "example_files =
     [(''a.json'', Parsed (JObject [(''text'', JString ''Cats chase mice. Mice run fast.'')])),
      (''b.json'', Parsed (JObject [(''text'', JString ''Dogs chase cats.'')]))]"

definition example_env :: environment where
  "example_env =
     \<lparr>report_time = ''t1'', marker_time = ''t2'',
      report_write = Succeeds, marker_write = Succeeds\<rparr>"

definition example_world :: world where
  "example_world = \<lparr>files = Map.empty, completed = []\<rparr>"

section \<open>Properties\<close>

subsection \<open>The ingestion loop\<close>

lemma reads_as_Nil: "reads_as [] texts \<longleftrightarrow> texts = []"
  by (auto simp: reads_as_def)

lemma reads_as_Cons:
  "reads_as (f # fs) texts \<longleftrightarrow>
     (\<exists>t ts. texts = t # ts \<and> read_text (snd f) = Inr t \<and> reads_as fs ts)"
  by (cases texts) (auto simp: reads_as_def)


lemma ingest_reads:
  "reads_as fs texts \<Longrightarrow>
   \<exists>st'. ingest st fs = Inr st' \<and>
     docs st' = docs st @ map fst fs \<and>
     all_tokens st' = all_tokens st @ concat (map tokenize texts) \<and>
     total_words_acc st' = total_words_acc st + sum_list (map (\<lambda>t. length (tokenize t)) texts) \<and>
     doc_word_sets st' =
       doc_word_sets st ++
         map_of (rev (zip (map fst fs) (map (\<lambda>t. set (map lower (tokenize t))) texts))) \<and>
     doc_avg_sentence_len st' =
       doc_avg_sentence_len st @
         map (\<lambda>t. avg (map (\<lambda>s. of_nat (length (tokenize s))) (sentence_list t))) texts \<and>
     doc_avg_word_len st' =
       doc_avg_word_len st @ map (\<lambda>t. avg (map (\<lambda>w. of_nat (length w)) (tokenize t))) texts"
proof (induction fs arbitrary: st texts)
  case Nil
  then show ?case by (simp add: reads_as_Nil)
next
  case (Cons f fs)
  then obtain t ts where t: "texts = t # ts" "read_text (snd f) = Inr t" "reads_as fs ts"
    by (auto simp: reads_as_Cons)
  obtain fn content where f: "f = (fn, content)" by (cases f)
  define st1 where "st1 = st\<lparr>docs := docs st @ [fn],
                         all_tokens := all_tokens st @ tokenize t,
                         total_words_acc := total_words_acc st + length (tokenize t),
                         doc_word_sets := (doc_word_sets st)(fn \<mapsto> set (map lower (tokenize t))),
                         doc_avg_sentence_len :=
                           doc_avg_sentence_len st @ [avg (map of_nat (map (\<lambda>s. length (tokenize s)) (sentence_list t)))],
                         doc_avg_word_len :=
                           doc_avg_word_len st @ [avg (map (\<lambda>t. of_nat (length t)) (tokenize t))]\<rparr>"
  have body: "loop_body st f = Inr st1"
    using t(2) f by (simp add: loop_body_def st1_def Let_def)
  from Cons.IH [OF t(3), of st1] obtain st' where st':
    "ingest st1 fs = Inr st'"
    "docs st' = docs st1 @ map fst fs"
    "all_tokens st' = all_tokens st1 @ concat (map tokenize ts)"
    "total_words_acc st' = total_words_acc st1 + sum_list (map (\<lambda>t. length (tokenize t)) ts)"
    "doc_word_sets st' =
       doc_word_sets st1 ++
         map_of (rev (zip (map fst fs) (map (\<lambda>t. set (map lower (tokenize t))) ts)))"
    "doc_avg_sentence_len st' =
       doc_avg_sentence_len st1 @
         map (\<lambda>t. avg (map (\<lambda>s. of_nat (length (tokenize s))) (sentence_list t))) ts"
    "doc_avg_word_len st' =
       doc_avg_word_len st1 @ map (\<lambda>t. avg (map (\<lambda>w. of_nat (length w)) (tokenize t))) ts"
    by blast
  have ws: "doc_word_sets st' =
       doc_word_sets st ++
         map_of (rev (zip (map fst (f # fs)) (map (\<lambda>t. set (map lower (tokenize t))) texts)))"
    unfolding st'(5)
    by (simp add: st1_def t(1) f fun_eq_iff map_add_def split: option.splits)
  show ?case
    using body st'(1-4,6,7) ws
    by (simp add: st1_def t(1) f comp_def)
qed

lemma ingest_initial:
  assumes "reads_as fs texts"
  obtains st where
    "ingest initial_state fs = Inr st"
    "docs st = map fst fs"
    "all_tokens st = concat (map tokenize texts)"
    "total_words_acc st = sum_list (map (\<lambda>t. length (tokenize t)) texts)"
    "doc_word_sets st =
       map_of (rev (zip (map fst fs) (map (\<lambda>t. set (map lower (tokenize t))) texts)))"
    "doc_avg_sentence_len st =
       map (\<lambda>t. avg (map (\<lambda>s. of_nat (length (tokenize s))) (sentence_list t))) texts"
    "doc_avg_word_len st = map (\<lambda>t. avg (map (\<lambda>w. of_nat (length w)) (tokenize t))) texts"
  using ingest_reads [OF assms, of initial_state]
  by (auto simp: initial_state_def)

lemma analyze_reads:
  assumes "reads_as fs texts"
  obtains st where
    "analyze now fs = Inr (build_report now (length fs) st)"
    "docs st = map fst fs"
    "all_tokens st = concat (map tokenize texts)"
    "total_words_acc st = sum_list (map (\<lambda>t. length (tokenize t)) texts)"
    "doc_word_sets st =
       map_of (rev (zip (map fst fs) (map (\<lambda>t. set (map lower (tokenize t))) texts)))"
    "doc_avg_sentence_len st =
       map (\<lambda>t. avg (map (\<lambda>s. of_nat (length (tokenize s))) (sentence_list t))) texts"
    "doc_avg_word_len st = map (\<lambda>t. avg (map (\<lambda>w. of_nat (length w)) (tokenize t))) texts"
proof -
  from assms obtain st where st: "ingest initial_state fs = Inr st"
    "docs st = map fst fs"
    "all_tokens st = concat (map tokenize texts)"
    "total_words_acc st = sum_list (map (\<lambda>t. length (tokenize t)) texts)"
    "doc_word_sets st =
       map_of (rev (zip (map fst fs) (map (\<lambda>t. set (map lower (tokenize t))) texts)))"
    "doc_avg_sentence_len st =
       map (\<lambda>t. avg (map (\<lambda>s. of_nat (length (tokenize s))) (sentence_list t))) texts"
    "doc_avg_word_len st = map (\<lambda>t. avg (map (\<lambda>w. of_nat (length w)) (tokenize t))) texts"
    by (rule ingest_initial)
  have "analyze now fs = Inr (build_report now (length fs) st)"
    by (simp add: analyze_def st(1))
  then show ?thesis using st(2-) that by blast
qed

lemma length_token_stream:
  "length (token_stream texts) = sum_list (map (\<lambda>t. length (tokenize t)) texts)"
  by (simp add: token_stream_def length_concat comp_def)





subsection \<open>Rounding, pairs and counters\<close>

lemma round_half_even_0: "round_half_even 0 = 0"
  by (simp add: round_half_even_def)

lemma py_round_0: "py_round 0 n = 0"
  by (simp add: py_round_def round_half_even_0)




lemma first_pos_snoc_mem: "k \<in> set xs \<Longrightarrow> first_pos (xs @ [x]) k = first_pos xs k"
  by (simp add: first_pos_def takeWhile_append1)

lemma first_pos_less: "k \<in> set xs \<Longrightarrow> first_pos xs k < length xs"
  unfolding first_pos_def by (induction xs) auto

lemma first_pos_snoc_new: "x \<notin> set xs \<Longrightarrow> first_pos (xs @ [x]) x = length xs"
  unfolding first_pos_def by (induction xs) auto

lemma keys_counter_incr:
  "map fst (counter_incr c k) = (if k \<in> fst ` set c then map fst c else map fst c @ [k])"
proof (induction c)
  case Nil
  show ?case by simp
next
  case (Cons a c)
  obtain k' v where a: "a = (k', v)" by (cases a)
  show ?case using Cons by (simp add: a)
qed

lemma counter_incr_entries:
  "distinct (map fst c) \<Longrightarrow>
   set (counter_incr c k) =
     (if k \<in> fst ` set c then (\<lambda>(k', v). if k' = k then (k', v + 1) else (k', v)) ` set c
      else insert (k, 1) (set c))"
proof (induction c)
  case Nil
  show ?case by simp
next
  case (Cons a c)
  obtain k' v where a: "a = (k', v)" by (cases a)
  show ?case
  proof (cases "k' = k")
    case True
    then have "k \<notin> fst ` set c" using Cons.prems a by auto
    then have "(\<lambda>(k', v). if k' = k then (k', v + 1) else (k', v)) ` set c = set c"
      by (force simp: image_iff)
    then show ?thesis using True a by simp
  next
    case False
    then show ?thesis using Cons a by (auto simp: image_iff)
  qed
qed

lemma Counter_snoc: "Counter (xs @ [x]) = counter_incr (Counter xs) x"
  by (simp add: Counter_def)

lemma Counter_keys:
  "distinct (map fst (Counter xs)) \<and> set (map fst (Counter xs)) = set xs \<and>
   sorted_wrt (\<lambda>a b. first_pos xs a < first_pos xs b) (map fst (Counter xs))"
proof (induction xs rule: rev_induct)
  case Nil
  show ?case by (simp add: Counter_def)
next
  case (snoc x xs)
  show ?case
  proof (cases "x \<in> set xs")
    case True
    then have keys: "map fst (Counter (xs @ [x])) = map fst (Counter xs)"
      using snoc by (simp add: Counter_snoc keys_counter_incr)
    have "sorted_wrt (\<lambda>a b. first_pos (xs @ [x]) a < first_pos (xs @ [x]) b) (map fst (Counter xs))"
      using snoc
      by (auto elim!: sorted_wrt_mono_rel [rotated] simp: first_pos_snoc_mem)
    then show ?thesis using snoc True keys by auto
  next
    case False
    then have keys: "map fst (Counter (xs @ [x])) = map fst (Counter xs) @ [x]"
      using snoc by (simp add: Counter_snoc keys_counter_incr)
    have "sorted_wrt (\<lambda>a b. first_pos (xs @ [x]) a < first_pos (xs @ [x]) b) (map fst (Counter xs))"
      using snoc
      by (auto elim!: sorted_wrt_mono_rel [rotated] simp: first_pos_snoc_mem)
    moreover have "\<forall>k\<in>set xs. first_pos (xs @ [x]) k < first_pos (xs @ [x]) x"
      using False by (simp add: first_pos_snoc_mem first_pos_snoc_new first_pos_less)
    ultimately show ?thesis using snoc False keys
      by (auto simp: sorted_wrt_append)
  qed
qed

lemma Counter_counts: "(k, v) \<in> set (Counter xs) \<Longrightarrow> v = count_list xs k"
proof (induction xs arbitrary: k v rule: rev_induct)
  case Nil
  then show ?case by (simp add: Counter_def)
next
  case (snoc x xs)
  have d: "distinct (map fst (Counter xs))" and s: "set (map fst (Counter xs)) = set xs"
    using Counter_keys [of xs] by auto
  show ?case
  proof (cases "x \<in> set xs")
    case True
    with snoc.prems d s obtain v' where "(k, v') \<in> set (Counter xs)" "v = (if k = x then v' + 1 else v')"
      by (auto simp: Counter_snoc counter_incr_entries split: if_splits)
    then show ?thesis using snoc.IH by auto
  next
    case False
    with snoc.prems d s have "(k, v) = (x, 1) \<or> (k, v) \<in> set (Counter xs)"
      by (auto simp: Counter_snoc counter_incr_entries split: if_splits)
    then show ?thesis
    proof
      assume "(k, v) = (x, 1)"
      then show ?thesis using False by (simp add: count_list_0_iff)
    next
      assume kv: "(k, v) \<in> set (Counter xs)"
      then have "k \<in> set xs" using s by force
      then have "k \<noteq> x" using False by auto
      then show ?thesis using snoc.IH [OF kv] by simp
    qed
  qed
qed

lemma sorted_wrt_insort_key:
  "sorted_wrt R ys \<Longrightarrow> sorted (map f ys) \<Longrightarrow>
   \<forall>y\<in>set ys. (f y < f x \<longrightarrow> R y x) \<and> (f x \<le> f y \<longrightarrow> R x y) \<Longrightarrow>
   sorted_wrt R (insort_key f x ys)"
  by (induction ys) (auto simp: set_insort_key)

lemma stable_sort_key:
  fixes f :: "'a \<Rightarrow> 'b::linorder"
  shows "sorted_wrt Q xs \<Longrightarrow>
    sorted_wrt (\<lambda>a b. f a < f b \<or> (f a = f b \<and> Q a b)) (sort_key f xs)"
proof (induction xs)
  case Nil
  show ?case by simp
next
  case (Cons x xs)
  then have "sorted_wrt (\<lambda>a b. f a < f b \<or> (f a = f b \<and> Q a b)) (sort_key f xs)"
    and "\<forall>y\<in>set xs. Q x y"
    by auto
  then show ?case
    by (auto intro!: sorted_wrt_insort_key)
qed

lemma Counter_length: "length (Counter xs) = card (set xs)"
proof -
  have "card (set (map fst (Counter xs))) = length (map fst (Counter xs))"
    using Counter_keys [of xs] by (intro distinct_card) simp
  then show ?thesis
    using Counter_keys [of xs] by simp
qed

lemma sorted_Counter_ranked:
  "sorted_wrt (\<lambda>a b. ranks_before xs (fst a) (fst b))
     (sort_key (\<lambda>(k, v). - int v) (Counter xs))"
proof -
  let ?f = "\<lambda>(k :: 'a, v). - int v"
  let ?Q = "\<lambda>a b :: 'a \<times> nat. first_pos xs (fst a) < first_pos xs (fst b)"
  have "sorted_wrt ?Q (Counter xs)"
    using Counter_keys [of xs] by (simp add: sorted_wrt_map)
  then have "sorted_wrt (\<lambda>a b. ?f a < ?f b \<or> (?f a = ?f b \<and> ?Q a b)) (sort_key ?f (Counter xs))"
    by (rule stable_sort_key)
  then show ?thesis
  proof (rule sorted_wrt_mono_rel [rotated])
    fix a b
    assume a: "a \<in> set (sort_key ?f (Counter xs))" and b: "b \<in> set (sort_key ?f (Counter xs))"
      and r: "?f a < ?f b \<or> (?f a = ?f b \<and> ?Q a b)"
    have "snd a = count_list xs (fst a)" "snd b = count_list xs (fst b)"
      using a b Counter_counts [of "fst a" "snd a" xs] Counter_counts [of "fst b" "snd b" xs]
      by simp_all
    with r show "ranks_before xs (fst a) (fst b)"
      by (cases a; cases b) (auto simp: ranks_before_def)
  qed
qed

lemma most_common_Counter:
  fixes xs :: "'a list" and n :: nat
  defines "best \<equiv> most_common n (Counter xs)"
  shows "length best = min n (card (set xs))"
    and "\<forall>e\<in>set best. fst e \<in> set xs \<and> snd e = count_list xs (fst e)"
    and "sorted_wrt (ranks_before xs) (map fst best)"
    and "\<forall>w\<in>set xs. w \<notin> set (map fst best) \<longrightarrow> (\<forall>k\<in>set (map fst best). ranks_before xs k w)"
proof -
  let ?f = "\<lambda>(k :: 'a, v). - int v"
  define S where "S = sort_key ?f (Counter xs)"
  have best: "best = take n S"
    by (simp add: best_def most_common_def S_def)
  have setS: "set S = set (Counter xs)"
    by (simp add: S_def)
  have keys: "set (map fst S) = set xs"
    using Counter_keys [of xs] setS by simp
  show "length best = min n (card (set xs))"
    by (simp add: best S_def Counter_length min.commute)
  show "\<forall>e\<in>set best. fst e \<in> set xs \<and> snd e = count_list xs (fst e)"
  proof
    fix e assume "e \<in> set best"
    then have e: "e \<in> set (Counter xs)"
      using setS by (auto simp: best dest: in_set_takeD)
    then have "fst e \<in> set (map fst (Counter xs))" by simp
    then have "fst e \<in> set xs" using Counter_keys [of xs] by simp
    moreover have "snd e = count_list xs (fst e)"
      using e Counter_counts [of "fst e" "snd e" xs] by simp
    ultimately show "fst e \<in> set xs \<and> snd e = count_list xs (fst e)" ..
  qed
  have sorted: "sorted_wrt (ranks_before xs) (map fst S)"
    using sorted_Counter_ranked [of xs] by (simp add: S_def sorted_wrt_map)
  have split: "map fst S = map fst best @ drop n (map fst S)"
    by (simp add: best take_map [symmetric])
  from sorted split have both: "sorted_wrt (ranks_before xs) (map fst best @ drop n (map fst S))"
    by simp
  then show "sorted_wrt (ranks_before xs) (map fst best)"
    by (simp add: sorted_wrt_append)
  show "\<forall>w\<in>set xs. w \<notin> set (map fst best) \<longrightarrow> (\<forall>k\<in>set (map fst best). ranks_before xs k w)"
  proof (intro ballI impI)
    fix w k
    assume w: "w \<in> set xs" "w \<notin> set (map fst best)" and k: "k \<in> set (map fst best)"
    from w(1) keys have "w \<in> set (map fst best @ drop n (map fst S))"
      using split by metis
    with w(2) have "w \<in> set (drop n (map fst S))" by simp
    with both k show "ranks_before xs k w"
      by (auto simp: sorted_wrt_append)
  qed
qed

lemma ranks_before_irrefl: "\<not> ranks_before xs a a"
  by (simp add: ranks_before_def)

lemma sorted_wrt_irrefl_distinct:
  "sorted_wrt R xs \<Longrightarrow> (\<And>a. \<not> R a a) \<Longrightarrow> distinct xs"
  by (induction xs) auto

lemma ngrams_consecutive:
  "ngrams tokens n =
     map (\<lambda>i. join_space (map (\<lambda>j. tokens ! (i + j)) [0 ..< n])) [0 ..< length tokens + 1 - n]"
proof -
  have "take n (drop i tokens) = map (\<lambda>j. tokens ! (i + j)) [0 ..< n]"
    if "i < length tokens + 1 - n" for i
    using that by (intro nth_equalityI) auto
  then show ?thesis
    by (simp add: ngrams_def)
qed

lemma top_by_count_most_common:
  "top_by_count n grams
     (map (\<lambda>(k, v). \<lparr>ngram = k, ngram_count = v\<rparr>) (most_common n (Counter grams)))"
proof -
  define L where "L = most_common n (Counter grams)"
  define best where "best = map (\<lambda>(k, v). \<lparr>ngram = k, ngram_count = v\<rparr>) L"
  note mc = most_common_Counter [where n = n and xs = grams, folded L_def]
  have names: "map ngram best = map fst L"
    by (simp add: best_def case_prod_beta comp_def)
  have counts: "map ngram_count best = map snd L"
    by (simp add: best_def case_prod_beta comp_def)
  have ent: "\<forall>e\<in>set best. ngram e \<in> set grams \<and> ngram_count e = count_list grams (ngram e)"
    using mc(2) by (auto simp: best_def)
  have d: "distinct (map ngram best)"
    unfolding names using mc(3) by (rule sorted_wrt_irrefl_distinct) (rule ranks_before_irrefl)
  have "sorted_wrt (\<lambda>a b. ranks_before grams (ngram a) (ngram b)) best"
    using mc(3) unfolding names [symmetric] by (simp add: sorted_wrt_map)
  then have s: "sorted_wrt (\<lambda>a b. ngram_count b \<le> ngram_count a) best"
  proof (rule sorted_wrt_mono_rel [rotated])
    fix a b assume "a \<in> set best" "b \<in> set best" "ranks_before grams (ngram a) (ngram b)"
    then show "ngram_count b \<le> ngram_count a"
      using ent by (auto simp: ranks_before_def)
  qed
  have t: "\<forall>g\<in>set grams. g \<notin> set (map ngram best) \<longrightarrow>
        (\<forall>e\<in>set best. count_list grams g \<le> ngram_count e)"
  proof (intro ballI impI)
    fix g e assume g: "g \<in> set grams" "g \<notin> set (map ngram best)" and e: "e \<in> set best"
    then have "ranks_before grams (ngram e) g"
      using mc(4) unfolding names [symmetric] by auto
    then show "count_list grams g \<le> ngram_count e"
      using ent e by (auto simp: ranks_before_def)
  qed
  have "length best = min n (card (set grams))"
    by (simp add: best_def mc(1))
  with d ent s t show ?thesis
    unfolding top_by_count_def best_def [symmetric] L_def [symmetric] by blast
qed

subsection \<open>The scan of the tokenizer\<close>













subsection \<open>Word totals\<close>

text \<open>
  C5. For every corpus of ingested documents, \<open>total_words\<close> is the sum over the
  documents of the number of tokens of the document's text, \<open>unique_words\<close> is the
  number of distinct lower-cased tokens across all documents, and \<open>unique_words\<close>
  never exceeds \<open>total_words\<close>.
\<close>

theorem word_totals:
  assumes "reads_as fs texts"
  shows "\<exists>r. analyze now fs = Inr r \<and>
     total_words r = (\<Sum>t\<leftarrow>texts. length (tokenize t)) \<and>
     unique_words r = card (\<Union>t\<in>set texts. set (map lower (tokenize t))) \<and>
     unique_words r \<le> total_words r"
proof -
  from assms obtain st where st:
    "analyze now fs = Inr (build_report now (length fs) st)"
    "all_tokens st = concat (map tokenize texts)"
    "total_words_acc st = sum_list (map (\<lambda>t. length (tokenize t)) texts)"
    by (rule analyze_reads)
  let ?r = "build_report now (length fs) st"
  have total: "total_words ?r = (\<Sum>t\<leftarrow>texts. length (tokenize t))"
    by (simp add: build_report_def Let_def st(3))
  have unique: "unique_words ?r = card (set (token_stream texts))"
    by (simp add: build_report_def Let_def st(2) token_stream_def)
  have sets: "set (token_stream texts) = (\<Union>t\<in>set texts. set (map lower (tokenize t)))"
    by (auto simp: token_stream_def)
  have "card (set (token_stream texts)) \<le> length (token_stream texts)"
    by (rule card_length)
  then have "unique_words ?r \<le> total_words ?r"
    by (simp add: unique total length_token_stream)
  with st(1) total unique sets show ?thesis by simp
qed

theorem word_totals_witness:
  "reads_as example_files example_texts \<and>
   (\<exists>r. analyze ''t'' example_files = Inr r \<and> total_words r = 9 \<and> unique_words r = 6)"
proof -
  have h: "reads_as example_files example_texts"
    by code_simp
  have t: "(\<Sum>t\<leftarrow>example_texts. length (tokenize t)) = 9"
    by code_simp
  have u: "card (\<Union>t\<in>set example_texts. set (map lower (tokenize t))) = 6"
    by code_simp
  from word_totals [OF h, of "''t''"] h show ?thesis
    unfolding t u by blast
qed

subsection \<open>The empty corpus\<close>

text \<open>
  C8. Given zero ingested documents, the aggregator does not fail: it produces a complete
  report with \<open>documents_processed = 0\<close>, \<open>total_words = 0\<close>, \<open>unique_words = 0\<close>,
  \<open>top_100_words = []\<close>, \<open>document_similarity = []\<close> and
  \<open>readability.complexity_score = 0.0\<close>, and, when the writes succeed, emits it.
\<close>

theorem empty_corpus:
  "analyze now [] =
     Inr \<lparr>processing_timestamp = now, documents_processed = 0, total_words = 0,
          unique_words = 0, top_100_words = [], document_similarity = [],
          top_bigrams = [], top_trigrams = [],
          readability = \<lparr>avg_sentence_length = 0, avg_word_length = 0, complexity_score = 0\<rparr>\<rparr> \<and>
   fst (main (env\<lparr>report_write := Succeeds, marker_write := Succeeds\<rparr>) [] w) = Inr () \<and>
   files (snd (main (env\<lparr>report_write := Succeeds, marker_write := Succeeds\<rparr>) [] w)) out_path =
     Some (ReportFile
       \<lparr>processing_timestamp = report_time env, documents_processed = 0, total_words = 0,
        unique_words = 0, top_100_words = [], document_similarity = [],
        top_bigrams = [], top_trigrams = [],
        readability = \<lparr>avg_sentence_length = 0, avg_word_length = 0, complexity_score = 0\<rparr>\<rparr>)"
proof -
  have a: "analyze now [] =
     Inr \<lparr>processing_timestamp = now, documents_processed = 0, total_words = 0,
          unique_words = 0, top_100_words = [], document_similarity = [],
          top_bigrams = [], top_trigrams = [],
          readability = \<lparr>avg_sentence_length = 0, avg_word_length = 0, complexity_score = 0\<rparr>\<rparr>"
    for now
    by (simp add: analyze_def initial_state_def build_report_def Counter_def most_common_def
        ngrams_def avg_def py_round_0)
  have ne: "out_path \<noteq> marker_path"
    by (simp add: out_path_def marker_path_def)
  show ?thesis
    by (simp add: a main_def sorted_files_def write_json_def ne)
qed

subsection \<open>Pairwise similarity\<close>



subsection \<open>Readability\<close>




subsection \<open>Records that are malformed or lack a text\<close>




subsection \<open>The completion marker\<close>

text \<open>
  C9. In every run the report write and the marker write are two separate steps in this
  order: the writes that complete are none, the report alone, or the report and then the
  marker. When the marker has been written the report file holds the full report. When
  persisting the report fails, the run ends with the error, no write has completed and
  the marker file is as it was.
\<close>

theorem marker_after_report:
  assumes "main env listing w = (res, w')"
  shows "(completed w' = completed w \<or> completed w' = completed w @ [out_path] \<or>
          completed w' = completed w @ [out_path, marker_path]) \<and>
         (completed w' = completed w @ [out_path, marker_path] \<longrightarrow>
            (\<exists>r. analyze (report_time env) (sorted_files listing) = Inr r \<and>
                 files w' out_path = Some (ReportFile r))) \<and>
         (report_write env \<noteq> Succeeds \<longrightarrow>
            (\<exists>e. res = Inl e) \<and> completed w' = completed w \<and>
            files w' marker_path = files w marker_path)"
proof (cases "analyze (report_time env) (sorted_files listing)")
  case (Inl e)
  with assms show ?thesis
    by (auto simp: main_def)
next
  case (Inr r)
  have ne: "out_path \<noteq> marker_path"
    by (simp add: out_path_def marker_path_def)
  show ?thesis
    using assms Inr ne
    by (cases "report_write env"; cases "marker_write env")
       (auto simp: main_def write_json_def)
qed

theorem marker_after_report_witness:
  "main example_env example_files example_world =
     (fst (main example_env example_files example_world),
      snd (main example_env example_files example_world)) \<and>
   completed (snd (main example_env example_files example_world)) =
     completed example_world @ [out_path, marker_path] \<and>
   (\<exists>r. analyze (report_time example_env) (sorted_files example_files) = Inr r \<and>
        files (snd (main example_env example_files example_world)) out_path =
          Some (ReportFile r)) \<and>
   report_write (example_env\<lparr>report_write := DumpFails\<rparr>) \<noteq> Succeeds \<and>
   (\<exists>e. fst (main (example_env\<lparr>report_write := DumpFails\<rparr>) example_files example_world) = Inl e) \<and>
   completed (snd (main (example_env\<lparr>report_write := DumpFails\<rparr>) example_files example_world)) =
     completed example_world \<and>
   files (snd (main (example_env\<lparr>report_write := DumpFails\<rparr>) example_files example_world))
     marker_path = files example_world marker_path"
proof -
  have c: "completed (snd (main example_env example_files example_world)) =
     completed example_world @ [out_path, marker_path]"
    by code_simp
  have f: "report_write (example_env\<lparr>report_write := DumpFails\<rparr>) \<noteq> Succeeds"
    by simp
  from marker_after_report [OF prod.collapse [symmetric],
      of example_env example_files example_world]
    marker_after_report [OF prod.collapse [symmetric],
      of "example_env\<lparr>report_write := DumpFails\<rparr>" example_files example_world]
    c f
  show ?thesis by simp
qed

subsection \<open>The most frequent words\<close>




subsection \<open>Bigrams and trigrams\<close>

text \<open>
  C4. For every corpus, the bigrams and the trigrams are those of one token stream: the
  lower-cased tokens of all documents, concatenated in ingestion order, so that an n-gram
  may span two documents. The n-grams of the stream are, for every position that leaves
  room for \<open>n\<close> tokens, the \<open>n\<close> consecutive tokens from that position joined with single
  spaces. \<open>top_bigrams\<close> (\<open>n = 2\<close>) and \<open>top_trigrams\<close> (\<open>n = 3\<close>) list the 100 most
  frequent of them with their numbers of occurrences, by descending count.
\<close>

theorem corpus_ngrams:
  assumes "reads_as fs texts"
  shows "\<exists>r. analyze now fs = Inr r \<and>
     top_by_count 100 (ngrams (token_stream texts) 2) (top_bigrams r) \<and>
     top_by_count 100 (ngrams (token_stream texts) 3) (top_trigrams r) \<and>
     token_stream texts = concat (map (\<lambda>t. map lower (tokenize t)) texts) \<and>
     (\<forall>n. ngrams (token_stream texts) n =
        map (\<lambda>i. join_space (map (\<lambda>j. token_stream texts ! (i + j)) [0 ..< n]))
          [0 ..< length (token_stream texts) + 1 - n])"
proof -
  from assms obtain st where st:
    "analyze now fs = Inr (build_report now (length fs) st)"
    "all_tokens st = concat (map tokenize texts)"
    by (rule analyze_reads)
  have b: "top_bigrams (build_report now (length fs) st) =
      map (\<lambda>(k, v). \<lparr>ngram = k, ngram_count = v\<rparr>)
        (most_common 100 (Counter (ngrams (token_stream texts) 2)))"
    by (simp add: build_report_def Let_def st(2) token_stream_def)
  have t: "top_trigrams (build_report now (length fs) st) =
      map (\<lambda>(k, v). \<lparr>ngram = k, ngram_count = v\<rparr>)
        (most_common 100 (Counter (ngrams (token_stream texts) 3)))"
    by (simp add: build_report_def Let_def st(2) token_stream_def)
  have c: "token_stream texts = concat (map (\<lambda>t. map lower (tokenize t)) texts)"
    by (simp add: token_stream_def map_concat comp_def)
  show ?thesis
    using st(1) c ngrams_consecutive [where tokens = "token_stream texts"]
    by (simp add: b t top_by_count_most_common)
qed

theorem corpus_ngrams_witness:
  "reads_as example_files example_texts \<and>
   (\<exists>r. analyze ''t'' example_files = Inr r \<and>
        top_by_count 100 (ngrams (token_stream example_texts) 2) (top_bigrams r) \<and>
        top_by_count 100 (ngrams (token_stream example_texts) 3) (top_trigrams r)) \<and>
   ngrams (token_stream example_texts) 2 =
     [''cats chase'', ''chase mice'', ''mice mice'', ''mice run'', ''run fast'',
      ''fast dogs'', ''dogs chase'', ''chase cats'']"
proof -
  have h: "reads_as example_files example_texts"
    by code_simp
  have g: "ngrams (token_stream example_texts) 2 =
     [''cats chase'', ''chase mice'', ''mice mice'', ''mice run'', ''run fast'',
      ''fast dogs'', ''dogs chase'', ''chase cats'']"
    by code_simp
  from corpus_ngrams [OF h, of "''t''"] h g show ?thesis
    by blast
qed

subsection \<open>Tokens\<close>



subsection \<open>Jaccard similarity\<close>

text \<open>
  C10. For all token collections \<open>a\<close> and \<open>b\<close>, \<open>jaccard_similarity(a, b)\<close> equals
  \<open>jaccard_similarity(b, a)\<close>, and the result lies in the closed interval from 0 to 1.
\<close>

theorem jaccard_symmetric_unit_interval:
  "jaccard_similarity (set a) (set b) = jaccard_similarity (set b) (set a) \<and>
   0 \<le> jaccard_similarity (set a) (set b) \<and>
   jaccard_similarity (set a) (set b) \<le> 1"
proof -
  define m n where "m = card (set a \<inter> set b)" and "n = card (set a \<union> set b)"
  have "m \<le> n"
    unfolding m_def n_def by (rule card_mono) auto
  then have "(of_nat m :: rat) / of_nat n \<le> 1"
    by (cases "n = 0") (simp_all add: divide_le_eq_1)
  moreover have "0 \<le> (of_nat m :: rat) / of_nat n"
    by simp
  ultimately show ?thesis
    unfolding jaccard_similarity_def Let_def m_def n_def
    by (simp only: Int_commute [of "set b"] Un_commute [of "set b"]) simp
qed

end
